theory Spec2Isabelle
  imports Main "HOL-Library.AList" "HOL-Library.Sublist"
begin

section \<open>The cache store\<close>

text \<open>
  The cache file holds one JSON document. \<open>json.load\<close> hands back whatever value the
  document denotes, so the value returned by \<open>load_cache\<close> is a JSON value: a Python
  \<open>dict\<close> for an object, a \<open>list\<close> for an array, and so on.
\<close>

datatype json =
    JNull
  | JBool bool
  | JNum int
  | JStr string
  | JArr "json list"
  | JObj "(string \<times> json) list"

text \<open>
  What \<open>load_cache\<close> can find on disk: no file (\<open>os.path.exists\<close> is false), a file
  on which \<open>open\<close> or \<open>json.load\<close> raises, or a file that \<open>json.load\<close> parses.
\<close>

datatype cache_file = Missing | Unreadable | Holds json

definition load_cache :: "cache_file \<Rightarrow> json" where
  "load_cache f = (case f of
       Missing \<Rightarrow> JObj []
     | Unreadable \<Rightarrow> JObj []
     | Holds v \<Rightarrow> v)"

text \<open>\<open>isinstance(v, dict)\<close>.\<close>

fun is_dict :: "json \<Rightarrow> bool" where
  "is_dict (JObj kvs) = True"
| "is_dict v = False"

text \<open>
  The other operations are modelled from the point where \<open>load_cache\<close> has returned
  a dictionary of records. A dictionary is an association list in insertion order
  (the order \<open>cache.items()\<close> iterates in); \<open>d[k] = v\<close> is \<open>AList.update\<close>, which
  keeps the position of a key already present and appends a new one, and
  \<open>del d[k]\<close> is \<open>AList.delete\<close>. The fields of a record are optional because the
  readers use \<open>data.get(field, default)\<close>.
\<close>

record cache_record =
  email :: "string option"
  name :: "string option"
  last_date :: "int option"
  labels :: "string list option"

type_synonym 'k cache = "('k \<times> cache_record) list"

section \<open>The deletion coordinator\<close>

text \<open>
  The remote service is a parameter: \<open>batchModify i batch_ids\<close> is the outcome of the
  call issued for the batch that starts at offset \<open>i\<close>, \<open>None\<close> when \<open>execute()\<close>
  returns and \<open>Some e\<close> when it raises \<open>e\<close>. The loop is
  \<open>for i in range(0, len(message_ids), batch_size)\<close> with \<open>batch_size = 1000\<close>; the
  accumulator is \<open>cleaned_ids\<close>.
\<close>

function trash_loop ::
  "(nat \<Rightarrow> 'k list \<Rightarrow> string option) \<Rightarrow> 'k list \<Rightarrow> nat \<Rightarrow> 'k list \<Rightarrow> 'k list" where
  "trash_loop batchModify message_ids i cleaned_ids =
     (if i < length message_ids then
        (let batch_ids = take 1000 (drop i message_ids) in
         trash_loop batchModify message_ids (i + 1000)
           (case batchModify i batch_ids of
              None \<Rightarrow> cleaned_ids @ batch_ids
            | Some e \<Rightarrow> cleaned_ids))
      else cleaned_ids)"
  by pat_completeness auto
termination
  by (relation "measure (\<lambda>(b, ms, i, c). length ms - i)") auto

declare trash_loop.simps [simp del]

text \<open>\<open>for mid in cleaned_ids: if mid in cache: del cache[mid]\<close>\<close>

fun remove_ids :: "'k list \<Rightarrow> 'k cache \<Rightarrow> 'k cache" where
  "remove_ids [] cache = cache"
| "remove_ids (mid # mids) cache =
     remove_ids mids (if mid \<in> fst ` set cache then AList.delete mid cache else cache)"

text \<open>
  The result of \<open>delete_messages\<close>: the number returned, and what was passed to
  \<open>save_cache\<close>, if anything was. \<open>stored\<close> is the dictionary \<open>load_cache()\<close> returns
  when the function reads the cache.
\<close>

record 'k deletion =
  returned :: nat
  saved :: "'k cache option"

definition delete_messages ::
  "(nat \<Rightarrow> 'k list \<Rightarrow> string option) \<Rightarrow> 'k list \<Rightarrow> 'k cache \<Rightarrow> 'k deletion" where
  "delete_messages batchModify message_ids stored =
     (if message_ids = [] then \<lparr>returned = 0, saved = None\<rparr>
      else
        (let cleaned_ids = trash_loop batchModify message_ids 0 [] in
         \<lparr>returned = length cleaned_ids,
          saved = (if cleaned_ids \<noteq> [] then Some (remove_ids cleaned_ids stored) else None)\<rparr>))"

text \<open>The dictionary the cache file holds once \<open>delete_messages\<close> has returned.\<close>

definition cache_after :: "'k deletion \<Rightarrow> 'k cache \<Rightarrow> 'k cache" where
  "cache_after d stored = (case saved d of None \<Rightarrow> stored | Some c \<Rightarrow> c)"

text \<open>
  The batches the loop forms, with their offsets, written out as a list: batch \<open>j\<close>
  starts at offset \<open>1000 * j\<close>.
\<close>

definition trash_batches :: "'k list \<Rightarrow> (nat \<times> 'k list) list" where
  "trash_batches message_ids =
     map (\<lambda>j. (1000 * j, take 1000 (drop (1000 * j) message_ids)))
       [0 ..< (length message_ids + 999) div 1000]"

definition succeeded :: "(nat \<Rightarrow> 'k list \<Rightarrow> string option) \<Rightarrow> 'k list \<Rightarrow> 'k list list" where
  "succeeded batchModify message_ids =
     map snd (filter (\<lambda>(i, b). batchModify i b = None) (trash_batches message_ids))"

definition failed :: "(nat \<Rightarrow> 'k list \<Rightarrow> string option) \<Rightarrow> 'k list \<Rightarrow> 'k list list" where
  "failed batchModify message_ids =
     map snd (filter (\<lambda>(i, b). batchModify i b \<noteq> None) (trash_batches message_ids))"

section \<open>The stats aggregator\<close>

subsection \<open>String operations of the query parser\<close>

text \<open>\<open>sub in s\<close> for strings.\<close>

fun contains :: "string \<Rightarrow> string \<Rightarrow> bool" where
  "contains sub [] = (sub = [])"
| "contains sub (c # cs) = (prefix sub (c # cs) \<or> contains sub cs)"

text \<open>
  \<open>s.split(sep)\<close> for a non-empty separator: the pieces between the occurrences of
  \<open>sep\<close>, found from left to right without overlap. \<open>acc\<close> holds the current piece,
  reversed.
\<close>

fun split_from :: "string \<Rightarrow> string \<Rightarrow> string \<Rightarrow> string list" where
  "split_from sep acc [] = [rev acc]"
| "split_from sep acc (c # cs) =
     (if sep \<noteq> [] \<and> prefix sep (c # cs)
      then rev acc # split_from sep [] (drop (length sep - 1) cs)
      else split_from sep (c # acc) cs)"

definition py_split :: "string \<Rightarrow> string \<Rightarrow> string list" where
  "py_split sep s = split_from sep [] s"

text \<open>\<open>s.upper()\<close> on the ASCII letters; other characters are left as they are.\<close>

definition upper_char :: "char \<Rightarrow> char" where
  "upper_char c =
     (case map_of (zip ''abcdefghijklmnopqrstuvwxyz'' ''ABCDEFGHIJKLMNOPQRSTUVWXYZ'') c of
        Some u \<Rightarrow> u
      | None \<Rightarrow> c)"

definition upper :: "string \<Rightarrow> string" where
  "upper s = map upper_char s"

subsection \<open>The query\<close>

text \<open>
  \<open>to_ms date_str\<close> stands for
  \<open>time.mktime(datetime.datetime.strptime(date_str, "%Y-%m-%d").timetuple()) * 1000\<close>:
  the epoch milliseconds of local midnight of that day, a whole number, or \<open>None\<close>
  when the expression raises (the \<open>except: pass\<close> then leaves \<open>before_ts\<close> at
  \<open>None\<close>). It depends on the time zone of the process, so it is a parameter.
  The text after \<open>before:\<close> is \<open>query.split("before:")[1].split(" ")[0]\<close>; the index
  \<open>1\<close> exists because \<open>"before:" in query\<close> was tested.
\<close>

definition parse_before :: "(string \<Rightarrow> int option) \<Rightarrow> string \<Rightarrow> int option" where
  "parse_before to_ms query =
     (if contains ''before:'' query
      then to_ms (hd (py_split '' '' (py_split ''before:'' query ! 1)))
      else None)"

definition parse_category :: "string \<Rightarrow> string option" where
  "parse_category query =
     (if contains ''category:'' query
      then (let cat_arg = upper (hd (py_split '' '' (py_split ''category:'' query ! 1)))
            in if cat_arg \<in> set [''SOCIAL'', ''PROMOTIONS'', ''UPDATES'', ''FORUMS'']
               then Some (''CATEGORY_'' @ cat_arg) else None)
      else None)"

subsection \<open>The scan of the cache\<close>

text \<open>\<open>data.get("last_date", 0)\<close> and \<open>data.get("email", "Unknown")\<close>.\<close>

definition get_last_date :: "cache_record \<Rightarrow> int" where
  "get_last_date data = (case last_date data of None \<Rightarrow> 0 | Some ts \<Rightarrow> ts)"

definition get_email :: "cache_record \<Rightarrow> string" where
  "get_email data = (case email data of None \<Rightarrow> ''Unknown'' | Some e \<Rightarrow> e)"

text \<open>
  The two \<open>continue\<close> tests, negated. \<open>before_ts and ...\<close> tests the truth value of
  \<open>before_ts\<close>: \<open>None\<close> and the number zero are false. \<open>if target_category:\<close> tests the
  truth value of a string: \<open>None\<close> and the empty string are false.
\<close>

definition skipped_by_date :: "int option \<Rightarrow> cache_record \<Rightarrow> bool" where
  "skipped_by_date before_ts data =
     (case before_ts of
        None \<Rightarrow> False
      | Some c \<Rightarrow> c \<noteq> 0 \<and> get_last_date data \<ge> c)"

definition skipped_by_category :: "string option \<Rightarrow> cache_record \<Rightarrow> bool" where
  "skipped_by_category target_category data =
     (case target_category of
        None \<Rightarrow> False
      | Some t \<Rightarrow> t \<noteq> [] \<and>
          t \<notin> set (case labels data of None \<Rightarrow> [] | Some ls \<Rightarrow> ls))"

definition survives :: "int option \<Rightarrow> string option \<Rightarrow> cache_record \<Rightarrow> bool" where
  "survives before_ts target_category data =
     (\<not> skipped_by_date before_ts data \<and> \<not> skipped_by_category target_category data)"

text \<open>The \<open>last_date\<close> of the records that pass both tests, in the order of the cache.\<close>

definition surviving_dates :: "int option \<Rightarrow> string option \<Rightarrow> 'k cache \<Rightarrow> int list" where
  "surviving_dates before_ts target_category cache =
     map (\<lambda>(mid, data). get_last_date data)
       (filter (\<lambda>(mid, data). survives before_ts target_category data) cache)"

text \<open>
  A value of the \<open>defaultdict\<close> \<open>stats\<close>. The key \<open>"name"\<close> is \<open>sender_name\<close> and the
  key \<open>"last_date"\<close> is \<open>newest\<close>, which the default value does not have.
\<close>

record 'k sender_entry =
  count :: nat
  ids :: "'k list"
  sender_name :: string
  newest :: "int option"

definition default_entry :: "'k sender_entry" where
  "default_entry = \<lparr>count = 0, ids = [], sender_name = ''Unknown'', newest = None\<rparr>"

text \<open>\<open>stats[email]\<close> read through the \<open>defaultdict\<close>.\<close>

definition entry_of :: "(string \<times> 'k sender_entry) list \<Rightarrow> string \<Rightarrow> 'k sender_entry" where
  "entry_of stats e = (case map_of stats e of None \<Rightarrow> default_entry | Some x \<Rightarrow> x)"

text \<open>
  The state of the loop over \<open>cache.items()\<close>: \<open>stats\<close>, \<open>oldest_timestamp\<close> (\<open>None\<close>
  is \<open>float("inf")\<close>) and \<open>total_scanned\<close>.
\<close>

record 'k scan =
  stats :: "(string \<times> 'k sender_entry) list"
  oldest_timestamp :: "int option"
  total_scanned :: nat

definition scan_item ::
  "int option \<Rightarrow> string option \<Rightarrow> 'k \<times> cache_record \<Rightarrow> 'k scan \<Rightarrow> 'k scan" where
  "scan_item before_ts target_category item sc =
     (case item of (mid, data) \<Rightarrow>
        if skipped_by_date before_ts data then sc
        else if skipped_by_category target_category data then sc
        else
          (let ts = get_last_date data;
               e = get_email data;
               old = entry_of (stats sc) e
           in \<lparr>stats = AList.update e
                  \<lparr>count = count old + 1,
                   ids = ids old @ [mid],
                   sender_name = (case name data of None \<Rightarrow> e | Some n \<Rightarrow> n),
                   newest = Some (max (case newest old of None \<Rightarrow> 0 | Some d \<Rightarrow> d) ts)\<rparr>
                  (stats sc),
                oldest_timestamp =
                  (case oldest_timestamp sc of
                     None \<Rightarrow> Some ts
                   | Some t \<Rightarrow> if ts < t then Some ts else Some t),
                total_scanned = total_scanned sc + 1\<rparr>))"

definition scan_cache ::
  "int option \<Rightarrow> string option \<Rightarrow> 'k cache \<Rightarrow> 'k scan" where
  "scan_cache before_ts target_category cache =
     fold (scan_item before_ts target_category) cache
       \<lparr>stats = [], oldest_timestamp = None, total_scanned = 0\<rparr>"

text \<open>
  \<open>to_day t\<close> stands for
  \<open>datetime.datetime.fromtimestamp(t / 1000.0).strftime("%Y-%m-%d")\<close>: the local
  calendar day of the timestamp, or \<open>None\<close> when the expression raises, as
  \<open>fromtimestamp\<close> does for a timestamp outside the years 1 to 9999. It depends on the
  time zone of the process, so it is a parameter. The expression is outside every
  \<open>try\<close>, so when it raises, \<open>fetch_email_stats\<close> raises and returns nothing.
\<close>

datatype stats_error = DateError int

text \<open>
  A returned statistic \<open>{"email": k, **v}\<close> is the pair \<open>(k, v)\<close>.
  \<open>sorted(..., key=count, reverse=True)\<close> is a stable sort by descending count, which
  is \<open>sort_key\<close> on the negated count.
\<close>

record 'k stats_result =
  sorted_stats :: "(string \<times> 'k sender_entry) list"
  meta_total_scanned :: nat
  meta_oldest_date :: string

text \<open>
  \<open>before_ts\<close> and \<open>target_category\<close> as the function computes them from \<open>query\<close>:
  both stay \<open>None\<close> unless \<open>if query:\<close> holds, which fails for \<open>None\<close> and for the
  empty string.
\<close>

definition query_before :: "(string \<Rightarrow> int option) \<Rightarrow> string option \<Rightarrow> int option" where
  "query_before to_ms query =
     (case query of None \<Rightarrow> None
      | Some q \<Rightarrow> if q = [] then None else parse_before to_ms q)"

definition query_category :: "string option \<Rightarrow> string option" where
  "query_category query =
     (case query of None \<Rightarrow> None
      | Some q \<Rightarrow> if q = [] then None else parse_category q)"

definition fetch_email_stats ::
  "(string \<Rightarrow> int option) \<Rightarrow> (int \<Rightarrow> string option) \<Rightarrow> string option \<Rightarrow> 'k cache
     \<Rightarrow> stats_error + 'k stats_result" where
  "fetch_email_stats to_ms to_day query cache =
     (if cache = [] then
        Inr \<lparr>sorted_stats = [], meta_total_scanned = 0, meta_oldest_date = ''N/A''\<rparr>
      else
        (let sc = scan_cache (query_before to_ms query) (query_category query) cache;
             sorted = sort_key (\<lambda>x. - int (count (snd x))) (stats sc)
         in case oldest_timestamp sc of
              None \<Rightarrow>
                Inr \<lparr>sorted_stats = sorted, meta_total_scanned = total_scanned sc,
                     meta_oldest_date = ''N/A''\<rparr>
            | Some t \<Rightarrow>
                if total_scanned sc > 0 then
                  (case to_day t of
                     None \<Rightarrow> Inl (DateError t)
                   | Some day \<Rightarrow>
                       Inr \<lparr>sorted_stats = sorted, meta_total_scanned = total_scanned sc,
                            meta_oldest_date = day\<rparr>)
                else
                  Inr \<lparr>sorted_stats = sorted, meta_total_scanned = total_scanned sc,
                       meta_oldest_date = ''N/A''\<rparr>))"

section \<open>The sync engine\<close>

subsection \<open>Sender parsing\<close>

text \<open>
  \<open>re.search(r"<(.+?)>", from_header)\<close>: the leftmost \<open><\<close> that is followed by at
  least one character and then a \<open>>\<close>, with no newline in between (\<open>.\<close> does not
  match a newline); the group is the text up to the first such \<open>>\<close>. \<open>group_end\<close>
  scans for that \<open>>\<close> once one character of the group has been read, \<open>group_at\<close>
  is the attempt right after a \<open><\<close>.
\<close>

fun group_end :: "string \<Rightarrow> string \<Rightarrow> string option" where
  "group_end acc [] = None"
| "group_end acc (c # cs) =
     (if c = CHR ''>'' then Some (rev acc)
      else if c = CHR 0x0A then None
      else group_end (c # acc) cs)"

fun group_at :: "string \<Rightarrow> string option" where
  "group_at [] = None"
| "group_at (c # cs) = (if c = CHR 0x0A then None else group_end [c] cs)"

fun search_brackets :: "string \<Rightarrow> string option" where
  "search_brackets [] = None"
| "search_brackets (c # cs) =
     (if c = CHR ''<'' then
        (case group_at cs of Some g \<Rightarrow> Some g | None \<Rightarrow> search_brackets cs)
      else search_brackets cs)"

definition parse_sender_email :: "string \<Rightarrow> string" where
  "parse_sender_email from_header =
     (case search_brackets from_header of Some g \<Rightarrow> g | None \<Rightarrow> from_header)"

text \<open>
  \<open>s.strip()\<close> removes white space at both ends and \<open>s.strip('"')\<close> removes double
  quotes at both ends. The white space is what \<open>str.isspace\<close> accepts among the
  characters below 256.
\<close>

definition is_space :: "char \<Rightarrow> bool" where
  "is_space c = (c \<in> set [CHR '' '', CHR 0x09, CHR 0x0A, CHR 0x0B, CHR 0x0C, CHR 0x0D,
                         CHR 0x1C, CHR 0x1D, CHR 0x1E, CHR 0x1F, CHR 0x85, CHR 0xA0])"

definition strip_chars :: "(char \<Rightarrow> bool) \<Rightarrow> string \<Rightarrow> string" where
  "strip_chars P s = rev (dropWhile P (rev (dropWhile P s)))"

subsection \<open>The remote mailbox\<close>

text \<open>
  A message as \<open>messages.get\<close> returns it: \<open>response["id"]\<close>,
  \<open>response["payload"].get("headers", [])\<close> as a list of name and value,
  \<open>int(response["internalDate"])\<close> and \<open>response.get("labelIds")\<close>.
\<close>

record 'k message =
  msg_id :: 'k
  headers :: "(string \<times> string) list"
  internalDate :: int
  labelIds :: "string list option"

text \<open>
  The record \<open>batch_callback\<close> builds. \<open>header_dict\<close> keeps the last header of each
  name.
\<close>

definition from_header_of :: "'k message \<Rightarrow> string" where
  "from_header_of response =
     (case map_of (rev (headers response)) ''From'' of None \<Rightarrow> ''Unknown'' | Some v \<Rightarrow> v)"

definition record_of :: "'k message \<Rightarrow> cache_record" where
  "record_of response =
     (let from_header = from_header_of response;
          sender_email = parse_sender_email from_header;
          sender_name =
            (if CHR ''<'' \<in> set from_header
             then strip_chars (\<lambda>c. c = CHR 0x22)
                    (strip_chars is_space (hd (py_split ''<'' from_header)))
             else sender_email)
      in \<lparr>email = Some sender_email,
          name = Some sender_name,
          last_date = Some (internalDate response),
          labels = Some (case labelIds response of None \<Rightarrow> [] | Some ls \<Rightarrow> ls)\<rparr>)"

text \<open>
  \<open>batch_callback(request_id, response, exception)\<close> acting on \<open>new_items\<close>. An
  argument \<open>Inl e\<close> is a call with the exception \<open>e\<close>, \<open>Inr response\<close> a call with a
  response.
\<close>

fun batch_callback :: "string + 'k message \<Rightarrow> 'k cache \<Rightarrow> 'k cache" where
  "batch_callback (Inl exception) new_items = new_items"
| "batch_callback (Inr response) new_items =
     AList.update (msg_id response) (record_of response) new_items"

text \<open>
  What \<open>batch.execute()\<close> does: it calls the callback once for each element of
  \<open>replies\<close>, in order, and then returns (\<open>raised = None\<close>) or raises.
\<close>

record 'k outcome =
  replies :: "(string + 'k message) list"
  raised :: "string option"

text \<open>One page of \<open>messages.list\<close>: the ids listed, and whether a next page token came.\<close>

record 'k page =
  page_messages :: "'k list"
  has_next :: bool

text \<open>
  Everything outside the engine that a run depends on. \<open>pages\<close> are the answers of the
  successive \<open>list\<close> calls (\<open>Inl e\<close>: the call raises \<open>e\<close>); \<open>execute i chunk_ids\<close> is
  the outcome of the batch that starts at offset \<open>i\<close>; the three \<open>stop\<close> fields are
  what \<open>self._stop_event.is_set()\<close> returns at the top of the \<open>n\<close>-th iteration of
  the listing loop, after the listing loop, and at the top of the batch iteration for
  offset \<open>i\<close>. Writing the cache file is taken to succeed.
\<close>

record 'k world =
  build_error :: "string option"
  max_results :: int
  pages :: "(string + 'k page) list"
  stop_listing :: "nat \<Rightarrow> bool"
  stop_listed :: bool
  stop_batch :: "nat \<Rightarrow> bool"
  execute :: "nat \<Rightarrow> 'k list \<Rightarrow> 'k outcome"

subsection \<open>Progress state\<close>

text \<open>
  The values of \<open>SYNC_STATE["status"]\<close>: \<open>"Idle"\<close>, \<open>"Starting sync..."\<close>,
  \<open>"Listing messages..."\<close>, \<open>"Found n messages. Fetching details for m new items..."\<close>,
  \<open>"Fetching details... s/m"\<close>, \<open>"Complete"\<close>, \<open>"Stopped by user"\<close> and
  \<open>"Error: e"\<close>.
\<close>

datatype sync_status =
    Idle
  | Starting
  | ListingMessages
  | Found nat nat
  | FetchingDetails nat nat
  | Complete
  | StoppedByUser
  | Error string

record sync_state =
  is_running :: bool
  total_to_scan :: nat
  scanned_count :: nat
  status :: sync_status
  errors :: "string list"

text \<open>
  The state of a run: \<open>SYNC_STATE\<close>, \<open>self.output_cache\<close>, the buffer \<open>new_items\<close>,
  the dictionary last written to the cache file (at the start, the one that was
  loaded), and the batches sent to the remote side so far.
\<close>

record 'k engine =
  sync :: sync_state
  output_cache :: "'k cache"
  new_items :: "'k cache"
  persisted :: "'k cache"
  requested :: "'k list list"

subsection \<open>Listing\<close>

text \<open>
  The loop \<open>while not self._stop_event.is_set()\<close> of phase 1. The result is \<open>None\<close>
  when the recorded answers run out before the loop ends, \<open>Inl e\<close> when a \<open>list\<close>
  call raises, and otherwise the ids listed. \<open>fetched_count\<close> is the length of
  \<open>messages\<close> throughout.
\<close>

fun list_loop ::
  "int \<Rightarrow> (nat \<Rightarrow> bool) \<Rightarrow> (string + 'k page) list \<Rightarrow> nat \<Rightarrow> 'k list \<Rightarrow> sync_state
     \<Rightarrow> ((string + 'k list) \<times> sync_state) option" where
  "list_loop max_res stop [] n messages sy =
     (if stop n then Some (Inr messages, sy) else None)"
| "list_loop max_res stop (Inl e # rest) n messages sy =
     (if stop n then Some (Inr messages, sy) else Some (Inl e, sy))"
| "list_loop max_res stop (Inr p # rest) n messages sy =
     (if stop n then Some (Inr messages, sy)
      else
        (let messages' = messages @ page_messages p;
             sy' = sy\<lparr>total_to_scan := length messages'\<rparr>
         in if \<not> has_next p \<or> int (length messages') \<ge> max_res
            then Some (Inr messages', sy')
            else list_loop max_res stop rest (Suc n) messages' sy'))"

subsection \<open>Fetching details\<close>

text \<open>\<open>d.update(items)\<close>\<close>

definition dict_update :: "'k cache \<Rightarrow> 'k cache \<Rightarrow> 'k cache" where
  "dict_update d items = fold (\<lambda>(k, v). AList.update k v) items d"

text \<open>
  The body of the batch loop for offset \<open>i\<close>, after the stop test. The callbacks run
  first; if \<open>execute()\<close> then raises, the error is appended and nothing else happens;
  otherwise the progress is updated and, when \<open>i % 500 == 0\<close>, the buffer is merged
  into \<open>output_cache\<close>, saved and cleared.
\<close>

definition batch_step ::
  "(nat \<Rightarrow> 'k list \<Rightarrow> 'k outcome) \<Rightarrow> 'k list \<Rightarrow> nat \<Rightarrow> 'k engine \<Rightarrow> 'k engine" where
  "batch_step exec missing_ids i en =
     (let chunk_ids = take 100 (drop i missing_ids);
          out = exec i chunk_ids;
          buffered = fold batch_callback (replies out) (new_items en);
          en1 = en\<lparr>new_items := buffered, requested := requested en @ [chunk_ids]\<rparr>
      in case raised out of
           Some e \<Rightarrow> en1\<lparr>sync := (sync en)\<lparr>errors := errors (sync en) @ [e]\<rparr>\<rparr>
         | None \<Rightarrow>
             (let scanned = scanned_count (sync en) + length chunk_ids;
                  sy = (sync en)\<lparr>scanned_count := scanned,
                                 status := FetchingDetails scanned (length missing_ids)\<rparr>
              in if i mod 500 = 0
                 then (let merged = dict_update (output_cache en) buffered
                       in en1\<lparr>sync := sy, output_cache := merged, persisted := merged,
                              new_items := []\<rparr>)
                 else en1\<lparr>sync := sy\<rparr>))"

text \<open>\<open>for i in range(0, len(missing_ids), BATCH_SIZE)\<close> with the \<open>break\<close> on stop.\<close>

function fetch_loop ::
  "(nat \<Rightarrow> 'k list \<Rightarrow> 'k outcome) \<Rightarrow> (nat \<Rightarrow> bool) \<Rightarrow> 'k list \<Rightarrow> nat \<Rightarrow> 'k engine \<Rightarrow> 'k engine" where
  "fetch_loop exec stop missing_ids i en =
     (if i < length missing_ids then
        (if stop i then en
         else fetch_loop exec stop missing_ids (i + 100) (batch_step exec missing_ids i en))
      else en)"
  by pat_completeness auto
termination
  by (relation "measure (\<lambda>(x, s, ms, i, en). length ms - i)") auto

declare fetch_loop.simps [simp del]

text \<open>
  The states the loop passes through, one after each batch it runs: the run is in the
  \<open>m\<close>-th of them when \<open>m\<close> batches have completed. \<open>fetch_loop\<close> ends in the last one.
\<close>

function fetch_trace ::
  "(nat \<Rightarrow> 'k list \<Rightarrow> 'k outcome) \<Rightarrow> (nat \<Rightarrow> bool) \<Rightarrow> 'k list \<Rightarrow> nat \<Rightarrow> 'k engine
     \<Rightarrow> 'k engine list" where
  "fetch_trace exec stop missing_ids i en =
     (if i < length missing_ids \<and> \<not> stop i then
        batch_step exec missing_ids i en
          # fetch_trace exec stop missing_ids (i + 100) (batch_step exec missing_ids i en)
      else [])"
  by pat_completeness auto
termination
  by (relation "measure (\<lambda>(x, s, ms, i, en). length ms - i)") auto

declare fetch_trace.simps [simp del]

text \<open>The final \<open>self.output_cache.update(new_items); save_cache(self.output_cache)\<close>.\<close>

definition final_save :: "'k engine \<Rightarrow> 'k engine" where
  "final_save en =
     (let merged = dict_update (output_cache en) (new_items en)
      in en\<lparr>output_cache := merged, persisted := merged\<rparr>)"

text \<open>Phase 3 and the status assignment after it.\<close>

definition fetch_details :: "'k world \<Rightarrow> 'k list \<Rightarrow> 'k engine \<Rightarrow> 'k engine" where
  "fetch_details w missing_ids en =
     (let en' = (if missing_ids \<noteq> []
                 then final_save (fetch_loop (execute w) (stop_batch w) missing_ids 0 en)
                 else en)
      in en'\<lparr>sync := (sync en')\<lparr>status := Complete\<rparr>\<rparr>)"

subsection \<open>The run\<close>

text \<open>\<open>missing_ids\<close> of phase 2.\<close>

definition missing_ids_of :: "'k cache \<Rightarrow> 'k list \<Rightarrow> 'k list" where
  "missing_ids_of loaded messages = filter (\<lambda>k. k \<notin> fst ` set loaded) messages"

text \<open>The state in which the run starts, after the five assignments to \<open>SYNC_STATE\<close>.\<close>

definition start_state :: "'k cache \<Rightarrow> 'k engine" where
  "start_state loaded =
     \<lparr>sync = \<lparr>is_running = True, total_to_scan = 0, scanned_count = 0,
              status = Starting, errors = []\<rparr>,
      output_cache = loaded, new_items = [], persisted = loaded, requested = []\<rparr>"

text \<open>The state in which phase 3 starts, given the ids listed and the progress state.\<close>

definition details_start :: "'k cache \<Rightarrow> 'k list \<Rightarrow> sync_state \<Rightarrow> 'k engine" where
  "details_start loaded messages sy =
     (start_state loaded)
       \<lparr>sync := sy\<lparr>status := Found (length messages)
                               (length (missing_ids_of loaded messages))\<rparr>\<rparr>"

text \<open>The \<open>finally\<close> clause.\<close>

definition finish :: "'k engine \<Rightarrow> 'k engine" where
  "finish en = en\<lparr>sync := (sync en)\<lparr>is_running := False\<rparr>\<rparr>"

text \<open>
  \<open>BackgroundSyncer.run\<close>, for the cache \<open>loaded\<close> by the constructor. The result is
  the state when \<open>run\<close> returns, or \<open>None\<close> when the listing does not end on the
  recorded answers.
\<close>

definition listing :: "'k world \<Rightarrow> 'k cache \<Rightarrow> ((string + 'k list) \<times> sync_state) option" where
  "listing w loaded =
     list_loop (max_results w) (stop_listing w) (pages w) 0 []
       ((sync (start_state loaded))\<lparr>status := ListingMessages\<rparr>)"

definition run :: "'k world \<Rightarrow> 'k cache \<Rightarrow> 'k engine option" where
  "run w loaded =
     (let en = start_state loaded in
      case build_error w of
        Some e \<Rightarrow> Some (finish (en\<lparr>sync := (sync en)\<lparr>status := Error e\<rparr>\<rparr>))
      | None \<Rightarrow>
          (case listing w loaded of
             None \<Rightarrow> None
           | Some (Inl e, sy) \<Rightarrow> Some (finish (en\<lparr>sync := sy\<lparr>status := Error e\<rparr>\<rparr>))
           | Some (Inr messages, sy) \<Rightarrow>
               if stop_listed w
               then Some (finish (en\<lparr>sync := sy\<lparr>status := StoppedByUser\<rparr>\<rparr>))
               else Some (finish (fetch_details w (missing_ids_of loaded messages)
                                    (details_start loaded messages sy)))))"

subsection \<open>Batches, by number\<close>

text \<open>
  Batch \<open>j\<close> starts at offset \<open>100 * j\<close>. \<open>chunk\<close> is its \<open>chunk_ids\<close>, \<open>outcome_of\<close>
  what its \<open>execute()\<close> does, \<open>delivered\<close> the keys and records its callbacks put into
  the buffer, in order, and \<open>after_batches ... m\<close> the state once the first \<open>m\<close> batches
  have run.
\<close>

definition chunk :: "'k list \<Rightarrow> nat \<Rightarrow> 'k list" where
  "chunk missing_ids j = take 100 (drop (100 * j) missing_ids)"

definition outcome_of :: "(nat \<Rightarrow> 'k list \<Rightarrow> 'k outcome) \<Rightarrow> 'k list \<Rightarrow> nat \<Rightarrow> 'k outcome" where
  "outcome_of exec missing_ids j = exec (100 * j) (chunk missing_ids j)"

fun entries_of :: "(string + 'k message) list \<Rightarrow> 'k cache" where
  "entries_of [] = []"
| "entries_of (Inl e # rs) = entries_of rs"
| "entries_of (Inr response # rs) = (msg_id response, record_of response) # entries_of rs"

definition delivered :: "(nat \<Rightarrow> 'k list \<Rightarrow> 'k outcome) \<Rightarrow> 'k list \<Rightarrow> nat \<Rightarrow> 'k cache" where
  "delivered exec missing_ids j = entries_of (replies (outcome_of exec missing_ids j))"

definition delivered_upto :: "(nat \<Rightarrow> 'k list \<Rightarrow> 'k outcome) \<Rightarrow> 'k list \<Rightarrow> nat \<Rightarrow> 'k cache" where
  "delivered_upto exec missing_ids m = concat (map (delivered exec missing_ids) [0 ..< m])"

primrec after_batches ::
  "(nat \<Rightarrow> 'k list \<Rightarrow> 'k outcome) \<Rightarrow> 'k list \<Rightarrow> 'k engine \<Rightarrow> nat \<Rightarrow> 'k engine" where
  "after_batches exec missing_ids en 0 = en"
| "after_batches exec missing_ids en (Suc m) =
     batch_step exec missing_ids (100 * m) (after_batches exec missing_ids en m)"

text \<open>
  A batch whose \<open>execute()\<close> returns at an offset that is a multiple of 500 is one after
  which the buffer is merged and saved.
\<close>

definition checkpoint :: "(nat \<Rightarrow> 'k list \<Rightarrow> 'k outcome) \<Rightarrow> 'k list \<Rightarrow> nat \<Rightarrow> bool" where
  "checkpoint exec missing_ids j =
     ((100 * j) mod 500 = 0 \<and> raised (outcome_of exec missing_ids j) = None)"

text \<open>The number of ids in those of the first \<open>m\<close> batches whose \<open>execute()\<close> returned.\<close>

definition executed_ids :: "(nat \<Rightarrow> 'k list \<Rightarrow> 'k outcome) \<Rightarrow> 'k list \<Rightarrow> nat \<Rightarrow> nat" where
  "executed_ids exec missing_ids m =
     sum_list (map (\<lambda>j. if raised (outcome_of exec missing_ids j) = None
                         then length (chunk missing_ids j) else 0) [0 ..< m])"

text \<open>A record as \<open>batch_callback\<close> writes it, used in the examples.\<close>

definition example_record :: cache_record where
  "example_record =
     \<lparr>email = Some ''a@example.com'', name = Some ''A'', last_date = Some 5, labels = Some []\<rparr>"

text \<open>Records, caches and date conversions used in the examples.\<close>

definition sender_record :: "string \<Rightarrow> int \<Rightarrow> cache_record" where
  "sender_record e ts = \<lparr>email = Some e, name = Some e, last_date = Some ts, labels = Some []\<rparr>"




definition utc_epoch :: "string \<Rightarrow> int option" where
  "utc_epoch s = (if s = ''1970-01-01'' then Some 0 else None)"

text \<open>
  The day of a timestamp in a process whose time zone is UTC, on the timestamps the
  examples use: the day that starts at the epoch, and the last millisecond of 2023-05-31.
  A timestamp of the year 10000 or later makes \<open>fromtimestamp\<close> raise; 253402300800000
  is the first of them. The other timestamps are not used.
\<close>

definition utc_day :: "int \<Rightarrow> string option" where
  "utc_day t =
     (if 0 \<le> t \<and> t < 86400000 then Some ''1970-01-01''
      else if t = 1685577599999 then Some ''2023-05-31''
      else None)"

text \<open>
  Remote sides used in the examples. Message ids are numbers. \<open>plain_message k\<close> is
  the message \<open>k\<close>; \<open>answers_all\<close> answers every request of a batch with its message,
  \<open>answers_none\<close> answers every request with an error of its own; in both the batch
  call itself returns. \<open>listed_world ks stop exec\<close> lists the ids \<open>ks\<close> in one page, is
  not stopped during or right after the listing, and has the given stop flag and batch
  outcomes in phase 3.
\<close>

definition plain_message :: "nat \<Rightarrow> nat message" where
  "plain_message k =
     \<lparr>msg_id = k, headers = [(''From'', ''Jane Doe <jane@example.com>'')],
      internalDate = 1685577600000, labelIds = Some [''INBOX'']\<rparr>"

definition answers_all :: "nat \<Rightarrow> nat list \<Rightarrow> nat outcome" where
  "answers_all i chunk_ids =
     \<lparr>replies = map (\<lambda>k. Inr (plain_message k)) chunk_ids, raised = None\<rparr>"

definition answers_none :: "nat \<Rightarrow> nat list \<Rightarrow> nat outcome" where
  "answers_none i chunk_ids =
     \<lparr>replies = map (\<lambda>k. Inl ''HttpError 404'') chunk_ids, raised = None\<rparr>"

definition listed_world ::
  "nat list \<Rightarrow> (nat \<Rightarrow> bool) \<Rightarrow> (nat \<Rightarrow> nat list \<Rightarrow> nat outcome) \<Rightarrow> nat world" where
  "listed_world ks stop exec =
     \<lparr>build_error = None, max_results = 50000,
      pages = [Inr \<lparr>page_messages = ks, has_next = False\<rparr>],
      stop_listing = (\<lambda>n. False), stop_listed = False,
      stop_batch = stop, execute = exec\<rparr>"

text \<open>The progress state after a listing of \<open>n\<close> ids.\<close>

definition listed_progress :: "nat \<Rightarrow> sync_state" where
  "listed_progress n =
     \<lparr>is_running = True, total_to_scan = n, scanned_count = 0,
      status = ListingMessages, errors = []\<rparr>"

section \<open>Properties of the cache store\<close>

lemma load_cache_missing: "load_cache Missing = JObj []"
  by (simp add: load_cache_def)

lemma load_cache_unreadable: "load_cache Unreadable = JObj []"
  by (simp add: load_cache_def)

lemma load_cache_object: "load_cache (Holds (JObj kvs)) = JObj kvs"
  by (simp add: load_cache_def)

text \<open>
  The function is total here as the source never raises: the only statements outside
  the \<open>try\<close> are \<open>os.path.exists\<close> and \<open>return {}\<close>. What it returns is a dictionary
  unless the file parses to something else.
\<close>

lemma load_cache_dict_iff:
  "is_dict (load_cache f) = (case f of Holds v \<Rightarrow> is_dict v | _ \<Rightarrow> True)"
  by (simp add: load_cache_def split: cache_file.splits)

text \<open>
  C8. The claim: whatever the cache file holds, \<open>load_cache\<close> returns a mapping, the
  persisted one or the empty one, and never raises. The docstring says the same: a
  \<open>dict\<close>, or an empty \<open>dict\<close> if invalid. The code returns the parsed document as
  it is, so a file that holds a well-formed JSON document other than an object, here
  the array \<open>[1]\<close>, makes it return a list.
\<close>

theorem load_cache_returns_array:
  "load_cache (Holds (JArr [JNum 1])) = JArr [JNum 1] \<and>
   \<not> is_dict (load_cache (Holds (JArr [JNum 1])))"
  by (simp add: load_cache_def)

section \<open>Properties of the deletion coordinator\<close>

lemma offset_in_range: "(1000 * j < n) = (j < (n + 999) div 1000)" for j n :: nat
  by arith

lemma trash_loop_from:
  "j \<le> (length ms + 999) div 1000 \<Longrightarrow>
   trash_loop bm ms (1000 * j) acc =
     acc @ concat (map snd (filter (\<lambda>(i, b). bm i b = None)
       (map (\<lambda>j. (1000 * j, take 1000 (drop (1000 * j) ms))) [j ..< (length ms + 999) div 1000])))"
proof (induction "(length ms + 999) div 1000 - j" arbitrary: j acc)
  case 0
  then have "\<not> 1000 * j < length ms" by (simp add: offset_in_range)
  with 0 show ?case by (simp add: trash_loop.simps)
next
  case (Suc d)
  then have lt: "j < (length ms + 999) div 1000" by simp
  then have in_range: "1000 * j < length ms" by (simp add: offset_in_range)
  have step: "d = (length ms + 999) div 1000 - Suc j" using Suc.hyps(2) by simp
  have next_offset: "1000 * j + 1000 = 1000 * Suc j" by simp
  from lt have Sj: "Suc j \<le> (length ms + 999) div 1000" by simp
  show ?case
    using Suc.hyps(1)[OF step Sj] in_range lt
    by (subst trash_loop.simps)
       (simp only: next_offset, simp add: upt_conv_Cons Let_def split: option.splits)
qed

lemma concat_chunks:
  "concat (map (\<lambda>j. take n (drop (n * j) xs)) [0 ..< m]) = take (n * m) xs"
proof (induction m)
  case 0
  show ?case by simp
next
  case (Suc m)
  have "take (n * m + n) xs = take (n * m) xs @ take n (drop (n * m) xs)"
    by (simp add: take_add)
  with Suc show ?case by (simp add: add.commute)
qed

lemma remove_ids_filter: "remove_ids ks c = filter (\<lambda>(k, v). k \<notin> set ks) c"
proof (induction ks arbitrary: c)
  case Nil
  show ?case by simp
next
  case (Cons mid mids)
  have absent: "mid \<notin> fst ` set c \<Longrightarrow>
      filter (\<lambda>(k, v). k \<noteq> mid \<and> k \<notin> set mids) c = filter (\<lambda>(k, v). k \<notin> set mids) c"
    by (rule filter_cong) (auto simp: image_iff)
  show ?case
    using absent by (auto simp: Cons.IH AList.delete_eq intro!: filter_cong)
qed

lemma cleaned_ids_eq: "trash_loop bm ms 0 [] = concat (succeeded bm ms)"
  using trash_loop_from [of 0 ms bm "[]"]
  by (simp add: succeeded_def trash_batches_def)

lemma trash_batches_concat: "concat (map snd (trash_batches ms)) = ms"
proof -
  have "length ms \<le> 1000 * ((length ms + 999) div 1000)" by arith
  then show ?thesis
    by (simp add: trash_batches_def comp_def concat_chunks)
qed

lemma trash_batches_length:
  assumes "b \<in> snd ` set (trash_batches ms)"
  shows "b \<noteq> [] \<and> length b \<le> 1000"
proof -
  from assms obtain j where j: "j < (length ms + 999) div 1000"
    and b: "b = take 1000 (drop (1000 * j) ms)"
    by (auto simp: trash_batches_def)
  from j have "1000 * j < length ms" by (simp add: offset_in_range)
  with b show ?thesis by auto
qed

lemma cache_after_filter:
  "cache_after (delete_messages bm ms stored) stored =
     filter (\<lambda>(k, v). k \<notin> set (concat (succeeded bm ms))) stored"
proof (cases "ms = []")
  case True
  then show ?thesis
    by (simp add: cache_after_def delete_messages_def succeeded_def trash_batches_def)
next
  case False
  show ?thesis
  proof (cases "concat (succeeded bm ms) = []")
    case True
    with False show ?thesis
      by (simp add: cache_after_def delete_messages_def Let_def cleaned_ids_eq
          del: concat_eq_Nil_conv)
  next
    case nonempty: False
    with False show ?thesis
      by (simp add: cache_after_def delete_messages_def Let_def cleaned_ids_eq
          remove_ids_filter del: concat_eq_Nil_conv set_concat)
  qed
qed

lemma map_of_filter_keys:
  "map_of (filter (\<lambda>(k, v). P k) c) k = (if P k then map_of c k else None)"
  by (induction c) auto

lemma upt_two: "[0 ..< 2::nat] = [0, 1]"
  by (simp add: upt_conv_Cons)

lemma trash_batches_1001:
  "trash_batches [0 ..< 1001::nat] = [(0, [0 ..< 1000]), (1000, [1000])]"
  by (simp add: trash_batches_def upt_two)

lemma succeeded_1001:
  "succeeded (\<lambda>i b. if i = 0 then None else Some ''HttpError 500'') [0 ..< 1001::nat]
     = [[0 ..< 1000]]"
  by (simp add: succeeded_def trash_batches_1001)

lemma failed_1001:
  "failed (\<lambda>i b. if i = 0 then None else Some ''HttpError 500'') [0 ..< 1001::nat] = [[1000]]"
  by (simp add: failed_def trash_batches_1001)

text \<open>
  C4, as the claim is written. It says the cache is persisted once after all batches.
  With the single id \<open>7\<close> and a remote call that raises, nothing was trashed, the guard
  \<open>if cleaned_ids:\<close> is false and \<open>save_cache\<close> is not called at all.
\<close>

theorem delete_messages_no_save:
  "returned (delete_messages (\<lambda>i b. Some ''HttpError 500'') [7::nat] [(7, example_record)]) = 0 \<and>
   saved (delete_messages (\<lambda>i b. Some ''HttpError 500'') [7::nat] [(7, example_record)]) = None"
  by (simp add: delete_messages_def trash_loop.simps)

text \<open>
  C4, amended. The ids are cut, in order, into non-empty batches of at most 1000; the
  number returned is the total length of the batches whose remote call returned; an id
  of a batch whose call raised keeps its cache entry, unless the same id is also in a
  batch whose call returned; and the cache is saved once, after all batches, with the
  trashed ids removed, when at least one id was trashed, and not saved otherwise.
\<close>

theorem delete_messages_batches_counted:
  "concat (map snd (trash_batches ms)) = ms \<and>
   (\<forall>b \<in> snd ` set (trash_batches ms). b \<noteq> [] \<and> length b \<le> 1000) \<and>
   returned (delete_messages bm ms stored) = sum_list (map length (succeeded bm ms)) \<and>
   (\<forall>b \<in> set (failed bm ms). \<forall>k \<in> set b.
      k \<notin> set (concat (succeeded bm ms)) \<longrightarrow>
      map_of (cache_after (delete_messages bm ms stored) stored) k = map_of stored k) \<and>
   saved (delete_messages bm ms stored) =
     (if concat (succeeded bm ms) = [] then None
      else Some (remove_ids (concat (succeeded bm ms)) stored))"
proof -
  have count: "returned (delete_messages bm ms stored) = sum_list (map length (succeeded bm ms))"
    by (cases "ms = []")
       (simp_all add: delete_messages_def Let_def cleaned_ids_eq length_concat
          succeeded_def trash_batches_def)
  have kept: "\<forall>b \<in> set (failed bm ms). \<forall>k \<in> set b.
      k \<notin> set (concat (succeeded bm ms)) \<longrightarrow>
      map_of (cache_after (delete_messages bm ms stored) stored) k = map_of stored k"
    by (simp add: cache_after_filter map_of_filter_keys del: set_concat)
  have once: "saved (delete_messages bm ms stored) =
     (if concat (succeeded bm ms) = [] then None
      else Some (remove_ids (concat (succeeded bm ms)) stored))"
    by (cases "ms = []")
       (simp_all add: delete_messages_def Let_def cleaned_ids_eq succeeded_def
          trash_batches_def del: concat_eq_Nil_conv)
  show ?thesis
    using trash_batches_concat [of ms] trash_batches_length [of _ ms] count kept once
    by blast
qed

text \<open>
  The theorem at 1001 ids, where the call for the first batch returns and the call for
  the second raises: 1000 is returned, the id of the second batch keeps its entry, and
  the cache is saved without the first batch's ids.
\<close>

theorem delete_messages_batches_counted_witness:
  "returned (delete_messages (\<lambda>i b. if i = 0 then None else Some ''HttpError 500'')
      [0 ..< 1001::nat] [(0, example_record), (1000, example_record)]) = 1000 \<and>
   [1000] \<in> set (failed (\<lambda>i b. if i = 0 then None else Some ''HttpError 500'')
      [0 ..< 1001::nat]) \<and>
   map_of (cache_after (delete_messages (\<lambda>i b. if i = 0 then None else Some ''HttpError 500'')
      [0 ..< 1001::nat] [(0, example_record), (1000, example_record)])
      [(0, example_record), (1000, example_record)]) 1000 = Some example_record \<and>
   saved (delete_messages (\<lambda>i b. if i = 0 then None else Some ''HttpError 500'')
      [0 ..< 1001::nat] [(0, example_record), (1000, example_record)])
     = Some [(1000, example_record)]"
  using delete_messages_batches_counted
    [of "[0 ..< 1001::nat]" "\<lambda>i b. if i = 0 then None else Some ''HttpError 500''"
        "[(0, example_record), (1000, example_record)]"]
  by (simp add: succeeded_1001 failed_1001 remove_ids_filter)

text \<open>
  C10. Every entry of the cache whose key is not among the trashed ids is still there
  after the operation, under the same key with the same record, and every entry there
  after the operation was there before.
\<close>

theorem delete_messages_frame:
  "(\<forall>k v. (k, v) \<in> set stored \<and> k \<notin> set (concat (succeeded bm ms)) \<longrightarrow>
      (k, v) \<in> set (cache_after (delete_messages bm ms stored) stored) \<and>
      map_of (cache_after (delete_messages bm ms stored) stored) k = map_of stored k) \<and>
   set (cache_after (delete_messages bm ms stored) stored) \<subseteq> set stored"
  by (auto simp: cache_after_filter map_of_filter_keys simp del: set_concat)

theorem delete_messages_frame_witness:
  "(8, example_record) \<in> set (cache_after
       (delete_messages (\<lambda>i b. None) [7::nat] [(7, example_record), (8, example_record)])
       [(7, example_record), (8, example_record)]) \<and>
   set (cache_after
       (delete_messages (\<lambda>i b. None) [7::nat] [(7, example_record), (8, example_record)])
       [(7, example_record), (8, example_record)])
     \<subseteq> {(7, example_record), (8, example_record)}"
  using delete_messages_frame
    [of "[(7, example_record), (8, example_record)]" "\<lambda>i b. None" "[7::nat]"]
  by (simp add: succeeded_def trash_batches_def)

section \<open>Properties of the stats aggregator\<close>

text \<open>
  \<open>split\<close> never returns an empty list, and returns at least two pieces when the
  separator occurs: the \<open>hd\<close> and the index \<open>1\<close> in the query parser are in range.
\<close>

lemma split_from_nonempty: "split_from sep acc s \<noteq> []"
  by (induction s arbitrary: acc) auto

lemma split_from_two:
  "sep \<noteq> [] \<Longrightarrow> contains sep s \<Longrightarrow> 2 \<le> length (split_from sep acc s)"
proof (induction sep acc s rule: split_from.induct)
  case (1 sep acc)
  then show ?case by simp
next
  case (2 sep acc c cs)
  show ?case
  proof (cases "prefix sep (c # cs)")
    case True
    with "2.prems" show ?thesis
      using split_from_nonempty [of sep "[]" "drop (length sep - 1) cs"]
      by (cases "split_from sep [] (drop (length sep - 1) cs)") simp_all
  next
    case False
    with "2.prems" "2.IH"(2) show ?thesis by simp
  qed
qed

lemma py_split_nonempty: "py_split sep s \<noteq> []"
  by (simp add: py_split_def split_from_nonempty)

lemma py_split_two: "sep \<noteq> [] \<Longrightarrow> contains sep s \<Longrightarrow> 1 < length (py_split sep s)"
  using split_from_two [of sep s "[]"] by (simp add: py_split_def)

lemma parse_before_example:
  "parse_before to_ms ''before:2023-06-01 category:social'' = to_ms ''2023-06-01''"
  by (simp add: parse_before_def py_split_def)

lemma parse_category_example:
  "parse_category ''before:2023-06-01 category:social'' = Some ''CATEGORY_SOCIAL''"
  by (simp add: parse_category_def py_split_def upper_def upper_char_def)



lemma scan_item_total:
  "total_scanned (scan_item b t (m, d) sc) =
     total_scanned sc + (if survives b t d then 1 else 0)"
  by (simp add: scan_item_def survives_def Let_def)


lemma fold_total:
  "total_scanned (fold (scan_item b t) c sc) =
     total_scanned sc + length (filter (\<lambda>(m, d). survives b t d) c)"
  by (induction c arbitrary: sc) (auto simp: scan_item_total)












lemma scan_cache_total:
  "total_scanned (scan_cache b t c) = length (filter (\<lambda>(m, d). survives b t d) c)"
  by (simp add: scan_cache_def fold_total)











text \<open>
  \<open>oldest_timestamp\<close> after the scan is the least \<open>last_date\<close> among the records that
  pass the filters, so the function returns exactly when no record passes or the day
  of that timestamp can be printed.
\<close>

lemma scan_item_oldest:
  "oldest_timestamp (scan_item b t (m, d) sc) =
     (if survives b t d
      then Some (case oldest_timestamp sc of
                   None \<Rightarrow> get_last_date d
                 | Some x \<Rightarrow> min (get_last_date d) x)
      else oldest_timestamp sc)"
  by (auto simp: scan_item_def survives_def Let_def min_def split: option.splits)

lemma Min_insert_min:
  "finite S \<Longrightarrow> Min (insert (min x a) S) = Min (insert a (insert x S))"
  for x a :: int
  by (cases "S = {}") (simp_all add: ac_simps)

lemma fold_oldest_Some:
  "oldest_timestamp sc = Some a \<Longrightarrow>
   oldest_timestamp (fold (scan_item b t) c sc) =
     Some (Min (insert a (set (surviving_dates b t c))))"
proof (induction c arbitrary: sc a)
  case Nil
  then show ?case by (simp add: surviving_dates_def)
next
  case (Cons item c)
  obtain m d where item: "item = (m, d)" by (cases item)
  show ?case
  proof (cases "survives b t d")
    case True
    have step: "oldest_timestamp (scan_item b t (m, d) sc) = Some (min (get_last_date d) a)"
      using Cons.prems True by (simp add: scan_item_oldest)
    have "Min (insert (min (get_last_date d) a) (set (surviving_dates b t c)))
        = Min (insert a (insert (get_last_date d) (set (surviving_dates b t c))))"
      by (rule Min_insert_min) simp
    with Cons.IH [OF step] True show ?thesis
      by (simp add: item surviving_dates_def)
  next
    case False
    have step: "oldest_timestamp (scan_item b t (m, d) sc) = Some a"
      using Cons.prems False by (simp add: scan_item_oldest)
    from Cons.IH [OF step] False show ?thesis
      by (simp add: item surviving_dates_def)
  qed
qed

lemma fold_oldest_None:
  "oldest_timestamp sc = None \<Longrightarrow>
   oldest_timestamp (fold (scan_item b t) c sc) =
     (if surviving_dates b t c = [] then None else Some (Min (set (surviving_dates b t c))))"
proof (induction c arbitrary: sc)
  case Nil
  then show ?case by (simp add: surviving_dates_def)
next
  case (Cons item c)
  obtain m d where item: "item = (m, d)" by (cases item)
  show ?case
  proof (cases "survives b t d")
    case True
    have step: "oldest_timestamp (scan_item b t (m, d) sc) = Some (get_last_date d)"
      using Cons.prems True by (simp add: scan_item_oldest)
    from fold_oldest_Some [OF step, of b t c] True show ?thesis
      by (simp add: item surviving_dates_def)
  next
    case False
    have step: "oldest_timestamp (scan_item b t (m, d) sc) = None"
      using Cons.prems False by (simp add: scan_item_oldest)
    from Cons.IH [OF step] False show ?thesis
      by (simp add: item surviving_dates_def)
  qed
qed

lemma scan_cache_oldest:
  "oldest_timestamp (scan_cache b t c) =
     (if surviving_dates b t c = [] then None else Some (Min (set (surviving_dates b t c))))"
  by (simp add: scan_cache_def fold_oldest_None)

lemma scan_cache_total_dates:
  "total_scanned (scan_cache b t c) = length (surviving_dates b t c)"
  by (simp add: scan_cache_total surviving_dates_def)

lemma fetch_email_stats_returns:
  "(\<exists>r. fetch_email_stats to_ms to_day query c = Inr r) =
     (surviving_dates (query_before to_ms query) (query_category query) c = [] \<or>
      to_day (Min (set (surviving_dates (query_before to_ms query) (query_category query) c)))
        \<noteq> None)"
proof (cases "c = []")
  case True
  then show ?thesis by (simp add: fetch_email_stats_def surviving_dates_def)
next
  case False
  then show ?thesis
    by (auto simp: fetch_email_stats_def Let_def scan_cache_oldest scan_cache_total_dates
        split: option.splits)
qed

text \<open>
  A cache whose only record is stamped in the year 10000: the scan succeeds, the
  printing of \<open>oldest_date\<close> raises, and nothing is returned.
\<close>

lemma fetch_email_stats_raises:
  "fetch_email_stats (\<lambda>s. None) utc_day None
     [(1::nat, sender_record ''x@example.com'' 253402300800000)]
   = Inl (DateError 253402300800000)"
  by (simp add: fetch_email_stats_def scan_cache_def scan_item_def Let_def
      query_before_def query_category_def skipped_by_date_def skipped_by_category_def
      get_last_date_def get_email_def entry_of_def default_entry_def sender_record_def
      utc_day_def)











text \<open>
  The date test for a cutoff other than zero: a record is skipped exactly when its
  \<open>last_date\<close> is at or after the cutoff.
\<close>

lemma skipped_by_date_nonzero:
  "c \<noteq> 0 \<Longrightarrow> skipped_by_date (Some c) data = (get_last_date data \<ge> c)"
  by (simp add: skipped_by_date_def)

text \<open>
  C6. The claim: a record is excluded exactly when its \<open>last_date\<close> is at or after the
  cutoff. In a process whose time zone is UTC the query \<open>before:1970-01-01\<close> gives the
  cutoff \<open>0\<close>; the test \<open>if before_ts and ...\<close> takes the number zero for "no cutoff", and
  a record with \<open>last_date = 5\<close>, which is after the cutoff, is returned.
\<close>

theorem date_filter_ignored_at_epoch:
  "query_before utc_epoch (Some ''before:1970-01-01'') = Some 0 \<and>
   get_last_date (sender_record ''x@example.com'' 5) \<ge> 0 \<and>
   fetch_email_stats utc_epoch utc_day (Some ''before:1970-01-01'')
        [(1::nat, sender_record ''x@example.com'' 5)]
     = Inr \<lparr>sorted_stats =
              [(''x@example.com'',
                \<lparr>count = 1, ids = [1], sender_name = ''x@example.com'', newest = Some 5\<rparr>)],
            meta_total_scanned = 1, meta_oldest_date = ''1970-01-01''\<rparr>"
  by (simp add: fetch_email_stats_def query_before_def parse_before_def py_split_def utc_epoch_def
      query_category_def parse_category_def scan_cache_def scan_item_def Let_def
      skipped_by_date_def skipped_by_category_def get_last_date_def get_email_def
      entry_of_def default_entry_def sender_record_def utc_day_def)

section \<open>Properties of the sync engine\<close>

text \<open>The record built from the header \<open>Jane Doe <jane@example.com>\<close>.\<close>

lemma record_of_plain_message:
  "record_of (plain_message k) =
     \<lparr>email = Some ''jane@example.com'', name = Some ''Jane Doe'',
      last_date = Some 1685577600000, labels = Some [''INBOX'']\<rparr>"
  by (simp add: record_of_def plain_message_def from_header_of_def parse_sender_email_def
      strip_chars_def is_space_def py_split_def Let_def)

lemma batch_offset_in_range: "(100 * j < n) = (j < (n + 99) div 100)" for j n :: nat
  by arith

lemma nb_chunks_cover: "n \<le> 100 * ((n + 99) div 100)" for n :: nat
  by arith

lemma fetch_trace_nth:
  "m < length (fetch_trace exec stop ms (100 * j) (after_batches exec ms en0 j)) \<Longrightarrow>
   fetch_trace exec stop ms (100 * j) (after_batches exec ms en0 j) ! m
     = after_batches exec ms en0 (Suc (j + m))"
proof (induction m arbitrary: j)
  case 0
  then show ?case
    by (subst (asm) fetch_trace.simps, subst fetch_trace.simps) (simp split: if_splits)
next
  case (Suc m)
  have off: "100 * j + 100 = 100 * Suc j" by simp
  from Suc.prems have run: "100 * j < length ms \<and> \<not> stop (100 * j)"
    by (subst (asm) fetch_trace.simps) (simp split: if_splits)
  have unfold: "fetch_trace exec stop ms (100 * j) (after_batches exec ms en0 j)
      = after_batches exec ms en0 (Suc j)
          # fetch_trace exec stop ms (100 * Suc j) (after_batches exec ms en0 (Suc j))"
    using run by (subst fetch_trace.simps) (simp only: off, simp)
  with Suc.prems have "m < length (fetch_trace exec stop ms (100 * Suc j) (after_batches exec ms en0 (Suc j)))"
    by simp
  from Suc.IH [OF this] unfold show ?case by simp
qed

lemma trace_state:
  assumes "m \<le> length (fetch_trace exec stop ms 0 en0)"
  shows "(en0 # fetch_trace exec stop ms 0 en0) ! m = after_batches exec ms en0 m"
proof (cases m)
  case 0
  then show ?thesis by simp
next
  case (Suc k)
  with assms have "k < length (fetch_trace exec stop ms (100 * 0) (after_batches exec ms en0 0))"
    by simp
  from fetch_trace_nth [OF this] Suc show ?thesis by simp
qed

lemma fetch_loop_trace:
  "fetch_loop exec stop ms (100 * j) (after_batches exec ms en0 j)
     = after_batches exec ms en0
         (j + length (fetch_trace exec stop ms (100 * j) (after_batches exec ms en0 j)))"
proof (induction "(length ms + 99) div 100 - j" arbitrary: j)
  case 0
  then have "\<not> 100 * j < length ms" by (simp add: batch_offset_in_range)
  then show ?case
    by (subst fetch_loop.simps, subst fetch_trace.simps) simp
next
  case (Suc d)
  have off: "100 * j + 100 = 100 * Suc j" by simp
  from Suc.hyps(2) have d: "d = (length ms + 99) div 100 - Suc j" by simp
  show ?case
  proof (cases "100 * j < length ms \<and> \<not> stop (100 * j)")
    case True
    then show ?thesis
      using Suc.hyps(1) [OF d]
      by (subst fetch_loop.simps, subst fetch_trace.simps) (simp only: off, simp)
  next
    case False
    then show ?thesis
      by (subst fetch_loop.simps, subst fetch_trace.simps) auto
  qed
qed

lemma fetch_loop_after:
  "fetch_loop exec stop ms 0 en0
     = after_batches exec ms en0 (length (fetch_trace exec stop ms 0 en0))"
  using fetch_loop_trace [of exec stop ms 0 en0] by simp

lemma fetch_trace_length_le:
  "j + length (fetch_trace exec stop ms (100 * j) en) \<le> max j ((length ms + 99) div 100)"
proof (induction "(length ms + 99) div 100 - j" arbitrary: j en)
  case 0
  then have "\<not> 100 * j < length ms" by (simp add: batch_offset_in_range)
  then show ?case by (subst fetch_trace.simps) simp
next
  case (Suc d)
  have off: "100 * j + 100 = 100 * Suc j" by simp
  from Suc.hyps(2) have d: "d = (length ms + 99) div 100 - Suc j" by simp
  from Suc.hyps(2) have lt: "j < (length ms + 99) div 100" by simp
  show ?case
  proof (cases "100 * j < length ms \<and> \<not> stop (100 * j)")
    case True
    then show ?thesis
      using Suc.hyps(1) [OF d, of "batch_step exec ms (100 * j) en"] lt
      by (subst fetch_trace.simps) (simp only: off, simp)
  next
    case False
    then show ?thesis by (subst fetch_trace.simps) auto
  qed
qed

lemma fetch_trace_length_full:
  "\<forall>i. \<not> stop i \<Longrightarrow> j \<le> (length ms + 99) div 100 \<Longrightarrow>
   j + length (fetch_trace exec stop ms (100 * j) en) = (length ms + 99) div 100"
proof (induction "(length ms + 99) div 100 - j" arbitrary: j en)
  case 0
  then have "\<not> 100 * j < length ms" by (simp add: batch_offset_in_range)
  with 0 show ?case by (subst fetch_trace.simps) simp
next
  case (Suc d)
  have off: "100 * j + 100 = 100 * Suc j" by simp
  from Suc.hyps(2) have d: "d = (length ms + 99) div 100 - Suc j" by simp
  from Suc.hyps(2) have lt: "j < (length ms + 99) div 100" by simp
  then have "100 * j < length ms" by (simp add: batch_offset_in_range)
  then show ?case
    using Suc.hyps(1) [OF d Suc.prems(1), of "batch_step exec ms (100 * j) en"] lt Suc.prems(1)
    by (subst fetch_trace.simps) (simp only: off, simp)
qed


lemma batch_step_requested:
  "requested (batch_step exec ms i en) = requested en @ [take 100 (drop i ms)]"
  by (simp add: batch_step_def Let_def split: option.splits)

lemma batch_step_scanned:
  "scanned_count (sync (batch_step exec ms i en)) =
     scanned_count (sync en)
       + (if raised (exec i (take 100 (drop i ms))) = None
          then length (take 100 (drop i ms)) else 0)"
  by (simp add: batch_step_def Let_def split: option.splits)

lemma batch_step_persisted:
  "persisted en = output_cache en \<Longrightarrow>
   persisted (batch_step exec ms i en) = output_cache (batch_step exec ms i en)"
  by (simp add: batch_step_def Let_def split: option.splits)

lemma map_upd_then_add:
  "(m(k \<mapsto> v)) ++ map_of xs = m ++ map_of (xs @ [(k, v)])"
  by (rule ext) (simp add: map_add_def split: option.splits)

lemma callbacks_map:
  "map_of (fold batch_callback rs buf) = map_of buf ++ map_of (rev (entries_of rs))"
proof (induction rs arbitrary: buf)
  case Nil
  show ?case by simp
next
  case (Cons r rs)
  show ?case
  proof (cases r)
    case (Inl e)
    then show ?thesis by (simp add: Cons.IH)
  next
    case (Inr response)
    have "map_of (fold batch_callback (r # rs) buf)
        = map_of (AList.update (msg_id response) (record_of response) buf)
            ++ map_of (rev (entries_of rs))"
      by (simp add: Inr Cons.IH)
    also have "\<dots> = (map_of buf)(msg_id response \<mapsto> record_of response)
            ++ map_of (rev (entries_of rs))"
      by (simp only: update_conv')
    also have "\<dots> = map_of buf
            ++ map_of (rev (entries_of rs) @ [(msg_id response, record_of response)])"
      by (rule map_upd_then_add)
    finally show ?thesis by (simp add: Inr)
  qed
qed

lemma callbacks_distinct:
  "distinct (map fst buf) \<Longrightarrow> distinct (map fst (fold batch_callback rs buf))"
proof (induction rs arbitrary: buf)
  case Nil
  then show ?case by simp
next
  case (Cons r rs)
  then show ?case by (cases r) (simp_all add: distinct_update)
qed

lemma dict_update_map:
  "map_of (dict_update d items) = map_of d ++ map_of (rev items)"
proof (induction items arbitrary: d)
  case Nil
  show ?case by (simp add: dict_update_def)
next
  case (Cons kv items)
  obtain k v where kv: "kv = (k, v)" by (cases kv)
  have "map_of (dict_update d (kv # items))
      = map_of (AList.update k v d) ++ map_of (rev items)"
    using Cons.IH [of "AList.update k v d"] by (simp add: dict_update_def kv)
  also have "\<dots> = (map_of d)(k \<mapsto> v) ++ map_of (rev items)"
    by (simp only: update_conv')
  also have "\<dots> = map_of d ++ map_of (rev items @ [(k, v)])"
    by (rule map_upd_then_add)
  finally show ?case by (simp add: kv)
qed

lemma map_of_rev_distinct:
  "distinct (map fst xs) \<Longrightarrow> map_of (rev xs) = map_of xs"
proof (induction xs)
  case Nil
  show ?case by simp
next
  case (Cons kv xs)
  obtain k v where kv: "kv = (k, v)" by (cases kv)
  from Cons.prems kv have fresh: "map_of xs k = None"
    by (simp add: map_of_eq_None_iff)
  from Cons have IH: "map_of (rev xs) = map_of xs" by simp
  show ?case
    by (rule ext) (simp add: kv IH fresh map_add_def split: option.splits)
qed

lemma batch_step_distinct:
  "distinct (map fst (new_items en)) \<Longrightarrow>
   distinct (map fst (new_items (batch_step exec ms i en)))"
  by (simp add: batch_step_def Let_def callbacks_distinct split: option.splits)

lemma batch_step_union:
  assumes "distinct (map fst (new_items en))"
  shows "map_of (output_cache (batch_step exec ms i en)) ++ map_of (new_items (batch_step exec ms i en))
       = (map_of (output_cache en) ++ map_of (new_items en))
           ++ map_of (rev (entries_of (replies (exec i (take 100 (drop i ms))))))"
proof -
  have "distinct (map fst (fold batch_callback (replies (exec i (take 100 (drop i ms)))) (new_items en)))"
    using assms by (rule callbacks_distinct)
  then show ?thesis
    by (simp add: batch_step_def Let_def callbacks_map dict_update_map map_of_rev_distinct
        split: option.splits)
qed

lemma batch_step_checkpoint:
  assumes "i mod 500 = 0" and "raised (exec i (take 100 (drop i ms))) = None"
  shows "new_items (batch_step exec ms i en) = []"
  using assms by (simp add: batch_step_def Let_def)

lemma batch_step_no_checkpoint:
  assumes "\<not> (i mod 500 = 0 \<and> raised (exec i (take 100 (drop i ms))) = None)"
  shows "persisted (batch_step exec ms i en) = persisted en"
  using assms by (auto simp: batch_step_def Let_def split: option.splits)

lemma after_requested:
  "requested (after_batches exec ms en0 m) = requested en0 @ map (chunk ms) [0 ..< m]"
  by (induction m) (simp_all add: batch_step_requested chunk_def)

lemma after_scanned:
  "scanned_count (sync (after_batches exec ms en0 m))
     = scanned_count (sync en0) + executed_ids exec ms m"
  by (induction m) (simp_all add: batch_step_scanned executed_ids_def outcome_of_def chunk_def)

lemma after_persisted:
  "persisted en0 = output_cache en0 \<Longrightarrow>
   persisted (after_batches exec ms en0 m) = output_cache (after_batches exec ms en0 m)"
  by (induction m) (simp_all add: batch_step_persisted)

lemma after_distinct:
  "distinct (map fst (new_items en0)) \<Longrightarrow>
   distinct (map fst (new_items (after_batches exec ms en0 m)))"
  by (induction m) (simp_all add: batch_step_distinct)

lemma delivered_upto_Suc:
  "delivered_upto exec ms (Suc m) = delivered_upto exec ms m @ delivered exec ms m"
  by (simp add: delivered_upto_def)

lemma after_union:
  assumes "distinct (map fst (new_items en0))"
  shows "map_of (output_cache (after_batches exec ms en0 m))
           ++ map_of (new_items (after_batches exec ms en0 m))
       = (map_of (output_cache en0) ++ map_of (new_items en0))
           ++ map_of (rev (delivered_upto exec ms m))"
proof (induction m)
  case 0
  show ?case by (simp add: delivered_upto_def)
next
  case (Suc m)
  have "distinct (map fst (new_items (after_batches exec ms en0 m)))"
    using assms by (rule after_distinct)
  from batch_step_union [OF this, of exec ms "100 * m"] Suc show ?case
    by (simp add: delivered_upto_Suc delivered_def outcome_of_def chunk_def)
qed

lemma after_checkpoint:
  assumes "distinct (map fst (new_items en0))" and "persisted en0 = output_cache en0"
    and "checkpoint exec ms c"
  shows "map_of (persisted (after_batches exec ms en0 (Suc c)))
       = (map_of (output_cache en0) ++ map_of (new_items en0))
           ++ map_of (rev (delivered_upto exec ms (Suc c)))"
proof -
  from assms(3) have "new_items (after_batches exec ms en0 (Suc c)) = []"
    by (simp add: checkpoint_def outcome_of_def chunk_def batch_step_checkpoint)
  with after_union [OF assms(1), of exec ms "Suc c"]
       after_persisted [OF assms(2), of exec ms "Suc c"]
  show ?thesis by simp
qed

lemma after_no_checkpoint:
  assumes "c \<le> m" and "\<forall>j. c \<le> j \<and> j < m \<longrightarrow> \<not> checkpoint exec ms j"
  shows "persisted (after_batches exec ms en0 m) = persisted (after_batches exec ms en0 c)"
  using assms
proof (induction m)
  case 0
  then show ?case by simp
next
  case (Suc m)
  show ?case
  proof (cases "c = Suc m")
    case True
    then show ?thesis by simp
  next
    case False
    with Suc.prems have le: "c \<le> m" and no: "\<not> checkpoint exec ms m"
      and before: "\<forall>j. c \<le> j \<and> j < m \<longrightarrow> \<not> checkpoint exec ms j"
      by auto
    from no have "persisted (after_batches exec ms en0 (Suc m))
        = persisted (after_batches exec ms en0 m)"
      by (simp add: checkpoint_def outcome_of_def chunk_def batch_step_no_checkpoint)
    with Suc.IH [OF le before] show ?thesis by simp
  qed
qed

lemma list_loop_scanned:
  "list_loop mr stop script n msgs sy = Some (r, sy') \<Longrightarrow>
   scanned_count sy' = scanned_count sy"
proof (induction mr stop script n msgs sy rule: list_loop.induct)
  case (1 mr stop n messages sy)
  then show ?case by (simp split: if_splits)
next
  case (2 mr stop e rest n messages sy)
  then show ?case by (simp split: if_splits)
next
  case (3 mr stop p rest n messages sy)
  let ?messages = "messages @ page_messages p"
  let ?sy = "sy\<lparr>total_to_scan := length ?messages\<rparr>"
  show ?case
  proof (cases "stop n")
    case True
    with "3.prems" show ?thesis by simp
  next
    case False
    show ?thesis
    proof (cases "\<not> has_next p \<or> int (length ?messages) \<ge> mr")
      case True
      with \<open>\<not> stop n\<close> "3.prems" show ?thesis by (auto simp: Let_def)
    next
      case more: False
      with \<open>\<not> stop n\<close> "3.prems"
      have "list_loop mr stop rest (Suc n) ?messages ?sy = Some (r, sy')"
        by (simp add: Let_def)
      from "3.IH" [OF \<open>\<not> stop n\<close> refl refl more this] show ?thesis by simp
    qed
  qed
qed

lemma listing_scanned:
  "listing w loaded = Some (r, sy) \<Longrightarrow> scanned_count sy = 0"
  by (auto simp: listing_def start_state_def dest: list_loop_scanned)

lemma run_fetching:
  assumes "build_error w = None" and "listing w loaded = Some (Inr messages, sy)"
    and "\<not> stop_listed w"
  shows "run w loaded =
     Some (finish (fetch_details w (missing_ids_of loaded messages)
                     (details_start loaded messages sy)))"
  using assms by (simp add: run_def)

lemma details_start_fields:
  "new_items (details_start loaded messages sy) = []"
  "persisted (details_start loaded messages sy) = loaded"
  "output_cache (details_start loaded messages sy) = loaded"
  "requested (details_start loaded messages sy) = []"
  "scanned_count (sync (details_start loaded messages sy)) = scanned_count sy"
  by (simp_all add: details_start_def start_state_def)

lemma finish_fields:
  "persisted (finish en) = persisted en"
  "output_cache (finish en) = output_cache en"
  "requested (finish en) = requested en"
  "scanned_count (sync (finish en)) = scanned_count (sync en)"
  "status (sync (finish en)) = status (sync en)"
  "is_running (sync (finish en)) = False"
  by (simp_all add: finish_def)

lemma fetch_details_status: "status (sync (fetch_details w ms en)) = Complete"
  by (simp add: fetch_details_def Let_def)

lemma fetch_details_after:
  "fetch_details w ms en =
     (let n = length (fetch_trace (execute w) (stop_batch w) ms 0 en);
          en' = (if ms \<noteq> [] then final_save (after_batches (execute w) ms en n) else en)
      in en'\<lparr>sync := (sync en')\<lparr>status := Complete\<rparr>\<rparr>)"
  by (simp add: fetch_details_def Let_def fetch_loop_after)

lemma fetch_trace_Nil: "fetch_trace exec stop [] 0 en = []"
  by (subst fetch_trace.simps) simp

lemma fetch_details_requested:
  "requested (fetch_details w ms en) =
     requested en @ map (chunk ms) [0 ..< length (fetch_trace (execute w) (stop_batch w) ms 0 en)]"
  by (cases "ms = []")
     (simp_all add: fetch_details_after Let_def final_save_def after_requested fetch_trace_Nil)

lemma fetch_details_scanned:
  "scanned_count (sync (fetch_details w ms en)) =
     scanned_count (sync en)
       + executed_ids (execute w) ms (length (fetch_trace (execute w) (stop_batch w) ms 0 en))"
  by (cases "ms = []")
     (simp_all add: fetch_details_after Let_def final_save_def after_scanned fetch_trace_Nil
        executed_ids_def)

lemma fetch_details_persisted:
  assumes "ms \<noteq> []" and "distinct (map fst (new_items en))"
  shows "persisted (fetch_details w ms en) = output_cache (fetch_details w ms en)"
    and "map_of (persisted (fetch_details w ms en)) =
       (map_of (output_cache en) ++ map_of (new_items en))
         ++ map_of (rev (delivered_upto (execute w) ms
              (length (fetch_trace (execute w) (stop_batch w) ms 0 en))))"
proof -
  let ?n = "length (fetch_trace (execute w) (stop_batch w) ms 0 en)"
  show "persisted (fetch_details w ms en) = output_cache (fetch_details w ms en)"
    using assms(1) by (simp add: fetch_details_after Let_def final_save_def)
  have d: "distinct (map fst (new_items (after_batches (execute w) ms en ?n)))"
    using assms(2) by (rule after_distinct)
  have "map_of (persisted (fetch_details w ms en))
      = map_of (output_cache (after_batches (execute w) ms en ?n))
          ++ map_of (new_items (after_batches (execute w) ms en ?n))"
    using assms(1) d
    by (simp add: fetch_details_after Let_def final_save_def dict_update_map map_of_rev_distinct)
  with after_union [OF assms(2), of "execute w" ms ?n]
  show "map_of (persisted (fetch_details w ms en)) =
       (map_of (output_cache en) ++ map_of (new_items en))
         ++ map_of (rev (delivered_upto (execute w) ms ?n))"
    by simp
qed

lemma chunks_concat:
  "concat (map (chunk ms) [0 ..< (length ms + 99) div 100]) = ms"
  using concat_chunks [of 100 ms "(length ms + 99) div 100"] nb_chunks_cover [of "length ms"]
  by (simp add: chunk_def [abs_def])

lemma chunks_prefix:
  "set (concat (map (chunk ms) [0 ..< n])) \<subseteq> set ms"
  by (auto simp: chunk_def dest: in_set_takeD in_set_dropD)

lemma missing_not_cached: "set (missing_ids_of loaded messages) \<inter> fst ` set loaded = {}"
  by (auto simp: missing_ids_of_def)

lemma missing_count:
  "length (missing_ids_of loaded messages) =
     length messages - length (filter (\<lambda>k. k \<in> fst ` set loaded) messages)"
  using sum_length_filter_compl [of "\<lambda>k. k \<in> fst ` set loaded" messages]
  by (simp add: missing_ids_of_def)

lemma missing_none:
  "set messages \<subseteq> fst ` set loaded \<Longrightarrow> missing_ids_of loaded messages = []"
  by (auto simp: missing_ids_of_def filter_empty_conv)

text \<open>
  C2, amended. In a run that reaches phase 3, no cached id is ever requested, every
  batch has at most 100 ids, and the batches requested are the first batches of the
  missing ids. If the stop signal is not seen in phase 3, the ids requested are exactly
  the missing ids, \<open>N - K\<close> of them when \<open>N\<close> ids are listed and \<open>K\<close> of these are
  cached. If every listed id is cached, nothing is requested.
\<close>

theorem run_requests_missing:
  assumes "build_error w = None" and "listing w loaded = Some (Inr messages, sy)"
    and "\<not> stop_listed w"
  shows "\<exists>en. run w loaded = Some en \<and>
     set (concat (requested en)) \<inter> fst ` set loaded = {} \<and>
     (\<forall>b \<in> set (requested en). length b \<le> 100) \<and>
     (\<exists>n \<le> (length (missing_ids_of loaded messages) + 99) div 100.
         requested en = map (chunk (missing_ids_of loaded messages)) [0 ..< n]) \<and>
     ((\<forall>i. \<not> stop_batch w i) \<longrightarrow>
         concat (requested en) = missing_ids_of loaded messages \<and>
         length (concat (requested en)) =
           length messages - length (filter (\<lambda>k. k \<in> fst ` set loaded) messages)) \<and>
     (set messages \<subseteq> fst ` set loaded \<longrightarrow> requested en = [])"
proof -
  let ?missing = "missing_ids_of loaded messages"
  let ?start = "details_start loaded messages sy"
  let ?n = "length (fetch_trace (execute w) (stop_batch w) ?missing 0 ?start)"
  let ?final = "finish (fetch_details w ?missing ?start)"
  have run: "run w loaded = Some ?final" using assms by (rule run_fetching)
  have req: "requested ?final = map (chunk ?missing) [0 ..< ?n]"
    by (simp add: finish_fields fetch_details_requested details_start_fields)
  have n_le: "?n \<le> (length ?missing + 99) div 100"
    using fetch_trace_length_le
      [where j = 0 and exec = "execute w" and stop = "stop_batch w" and ms = ?missing and en = ?start]
    by simp
  have disjoint: "set (concat (requested ?final)) \<inter> fst ` set loaded = {}"
    using chunks_prefix [of ?missing ?n] missing_not_cached [of loaded messages]
    unfolding req by blast
  have small: "\<forall>b \<in> set (requested ?final). length b \<le> 100"
    unfolding req by (auto simp: chunk_def)
  have full: "concat (requested ?final) = ?missing \<and>
         length (concat (requested ?final)) =
           length messages - length (filter (\<lambda>k. k \<in> fst ` set loaded) messages)"
    if "\<forall>i. \<not> stop_batch w i"
  proof -
    from fetch_trace_length_full
      [where j = 0 and exec = "execute w" and stop = "stop_batch w" and ms = ?missing and en = ?start]
      that
    have "?n = (length ?missing + 99) div 100" by simp
    then have "concat (requested ?final) = ?missing"
      unfolding req by (simp add: chunks_concat)
    then show ?thesis by (simp add: missing_count)
  qed
  have none: "requested ?final = []" if "set messages \<subseteq> fst ` set loaded"
  proof -
    from that have "?missing = []" by (rule missing_none)
    then show ?thesis unfolding req by (simp add: fetch_trace_Nil)
  qed
  have batches: "\<exists>n \<le> (length ?missing + 99) div 100. requested ?final = map (chunk ?missing) [0 ..< n]"
    using req n_le by blast
  show ?thesis
  proof (intro exI [of _ ?final] conjI impI)
    show "run w loaded = Some ?final" by (rule run)
    show "set (concat (requested ?final)) \<inter> fst ` set loaded = {}" by (rule disjoint)
    show "\<forall>b \<in> set (requested ?final). length b \<le> 100" by (rule small)
    show "\<exists>n \<le> (length ?missing + 99) div 100. requested ?final = map (chunk ?missing) [0 ..< n]"
      by (rule batches)
    show "concat (requested ?final) = ?missing" if "\<forall>i. \<not> stop_batch w i"
      using full [OF that] by (rule conjunct1)
    show "length (concat (requested ?final)) =
           length messages - length (filter (\<lambda>k. k \<in> fst ` set loaded) messages)"
      if "\<forall>i. \<not> stop_batch w i"
      using full [OF that] by (rule conjunct2)
    show "requested ?final = []" if "set messages \<subseteq> fst ` set loaded"
      using none [OF that] .
  qed
qed

lemmas run_defs = run_def listing_def start_state_def details_start_def fetch_details_def
  batch_step_def final_save_def dict_update_def finish_def missing_ids_of_def Let_def
  listed_world_def answers_all_def answers_none_def

lemma listing_listed_world:
  "listing (listed_world ks stop exec) loaded = Some (Inr ks, listed_progress (length ks))"
  by (simp add: listing_def listed_world_def start_state_def listed_progress_def)

lemma fetching_run_ends_complete:
  assumes "build_error w = None" and "listing w loaded = Some (Inr messages, sy)"
    and "\<not> stop_listed w"
  shows "\<exists>en. run w loaded = Some en \<and>
     status (sync en) = Complete \<and> \<not> is_running (sync en) \<and>
     (missing_ids_of loaded messages \<noteq> [] \<longrightarrow>
        persisted en = output_cache en \<and>
        map_of (persisted en) =
          map_of loaded
            ++ map_of (rev (delivered_upto (execute w) (missing_ids_of loaded messages)
                 (length (fetch_trace (execute w) (stop_batch w)
                    (missing_ids_of loaded messages) 0
                    (details_start loaded messages sy))))))"
proof -
  let ?missing = "missing_ids_of loaded messages"
  let ?start = "details_start loaded messages sy"
  have run: "run w loaded = Some (finish (fetch_details w ?missing ?start))"
    using assms by (rule run_fetching)
  have fresh: "distinct (map fst (new_items ?start))"
    by (simp add: details_start_fields)
  have "status (sync (finish (fetch_details w ?missing ?start))) = Complete"
    by (simp add: finish_fields fetch_details_status)
  moreover have "\<not> is_running (sync (finish (fetch_details w ?missing ?start)))"
    by (simp add: finish_fields)
  moreover have "persisted (finish (fetch_details w ?missing ?start))
        = output_cache (finish (fetch_details w ?missing ?start)) \<and>
      map_of (persisted (finish (fetch_details w ?missing ?start))) =
          map_of loaded
            ++ map_of (rev (delivered_upto (execute w) ?missing
                 (length (fetch_trace (execute w) (stop_batch w) ?missing 0 ?start))))"
    if "?missing \<noteq> []"
    using fetch_details_persisted [OF that fresh, of w]
    by (simp add: finish_fields details_start_fields)
  ultimately show ?thesis using run by blast
qed

text \<open>
  C1. The claim: when the stop signal is seen before a batch of phase 3, the buffered
  items are merged and saved, and the final status is \<open>"Stopped by user"\<close>. The loop
  is left by \<open>break\<close>, the merge and the save after the loop run as the claim says
  (\<open>fetching_run_ends_complete\<close>), and then the status is set to \<open>"Complete"\<close>, as after
  a run that was not stopped. Here one id is listed and the stop signal is seen before
  the first batch.
\<close>

theorem cancelled_run_ends_complete:
  "run (listed_world [1] (\<lambda>i. True) answers_all) [] =
     Some \<lparr>sync = \<lparr>is_running = False, total_to_scan = 1, scanned_count = 0,
                   status = Complete, errors = []\<rparr>,
           output_cache = [], new_items = [], persisted = [], requested = []\<rparr>"
  by (simp add: run_defs fetch_loop.simps)

text \<open>
  C2, as the claim is written. It says that in every run the detail fetches attempted
  are exactly those of the listed ids that are not cached. With one id listed, none
  cached, and the stop signal seen before the first batch, no fetch is attempted.
\<close>

theorem cancelled_run_requests_nothing:
  "missing_ids_of [] [1::nat] = [1] \<and>
   map_option requested (run (listed_world [1] (\<lambda>i. True) answers_all) []) = Some []"
  by (simp add: run_defs fetch_loop.simps)

text \<open>
  C7, as the claim is written. It says that \<open>scanned_count\<close> is the number of ids whose
  details have been fetched and merged into the cache. With one id listed whose fetch
  is answered with an error, the run ends with \<open>scanned_count = 1\<close> and an empty cache.
\<close>

theorem scanned_count_counts_failed_fetch:
  "map_option (\<lambda>en. (scanned_count (sync en), output_cache en, persisted en))
     (run (listed_world [1] (\<lambda>i. False) answers_none) []) = Some (1, [], [])"
  by (simp add: run_defs fetch_loop.simps)


text \<open>
  C7, amended. In every state a run passes through in phase 3, and when the run
  returns, \<open>scanned_count\<close> is the number of ids in the batches run so far whose
  \<open>execute()\<close> returned without raising, whether or not the fetch of each id succeeded
  and whether or not the buffer has been merged yet.
\<close>

theorem scanned_count_counts_executed:
  assumes "build_error w = None" and "listing w loaded = Some (Inr messages, sy)"
    and "\<not> stop_listed w"
  shows "(\<forall>m \<le> length (fetch_trace (execute w) (stop_batch w) (missing_ids_of loaded messages) 0
                        (details_start loaded messages sy)).
            scanned_count (sync ((details_start loaded messages sy
                # fetch_trace (execute w) (stop_batch w) (missing_ids_of loaded messages) 0
                    (details_start loaded messages sy)) ! m))
              = executed_ids (execute w) (missing_ids_of loaded messages) m) \<and>
         (\<exists>en. run w loaded = Some en \<and>
            scanned_count (sync en)
              = executed_ids (execute w) (missing_ids_of loaded messages)
                  (length (fetch_trace (execute w) (stop_batch w) (missing_ids_of loaded messages) 0
                        (details_start loaded messages sy))))"
proof -
  let ?missing = "missing_ids_of loaded messages"
  let ?start = "details_start loaded messages sy"
  let ?trace = "fetch_trace (execute w) (stop_batch w) ?missing 0 ?start"
  have zero: "scanned_count (sync ?start) = 0"
    using listing_scanned [OF assms(2)] by (simp add: details_start_fields)
  have during: "scanned_count (sync ((?start # ?trace) ! m)) = executed_ids (execute w) ?missing m"
    if "m \<le> length ?trace" for m
    using trace_state [OF that] zero by (simp add: after_scanned)
  have "run w loaded = Some (finish (fetch_details w ?missing ?start))"
    using assms by (rule run_fetching)
  moreover have "scanned_count (sync (finish (fetch_details w ?missing ?start)))
      = executed_ids (execute w) ?missing (length ?trace)"
    using zero by (simp add: finish_fields fetch_details_scanned)
  ultimately show ?thesis using during by blast
qed

lemma upt_one: "[0 ..< 1::nat] = [0]"
  by (simp add: upt_conv_Cons)

lemma listed_world_fields:
  "build_error (listed_world ks stop exec) = None"
  "stop_listed (listed_world ks stop exec) = False"
  "stop_batch (listed_world ks stop exec) = stop"
  "execute (listed_world ks stop exec) = exec"
  by (simp_all add: listed_world_def)

lemma missing_ids_of_Nil: "missing_ids_of [] ks = ks"
  by (simp add: missing_ids_of_def)

lemma fetch_trace_length_unstopped:
  "length (fetch_trace exec (\<lambda>i. False) ms 0 en) = (length ms + 99) div 100"
  using fetch_trace_length_full [where j = 0 and stop = "\<lambda>i. False" and ms = ms and exec = exec]
  by simp

theorem scanned_count_counts_executed_witness:
  "\<exists>en. run (listed_world [1, 2, 3] (\<lambda>i. False) answers_all) [] = Some en \<and>
        scanned_count (sync en) = 3"
proof -
  let ?w = "listed_world [1, 2, 3] (\<lambda>i. False) answers_all"
  have stop: "\<not> stop_listed ?w"
    by (simp add: listed_world_fields)
  from scanned_count_counts_executed
    [OF listed_world_fields(1) listing_listed_world stop, of "[]"]
  obtain en where run: "run ?w [] = Some en"
    and count: "scanned_count (sync en)
      = executed_ids (execute ?w) (missing_ids_of [] [1, 2, 3])
          (length (fetch_trace (execute ?w) (stop_batch ?w) (missing_ids_of [] [1, 2, 3]) 0
             (details_start [] [1, 2, 3] (listed_progress (length [1, 2, 3::nat])))))"
    by blast
  have "executed_ids (execute ?w) (missing_ids_of [] [1, 2, 3])
          (length (fetch_trace (execute ?w) (stop_batch ?w) (missing_ids_of [] [1, 2, 3]) 0
             (details_start [] [1, 2, 3] (listed_progress (length [1, 2, 3::nat]))))) = 3"
    by (simp add: listed_world_fields missing_ids_of_Nil fetch_trace_length_unstopped
        executed_ids_def outcome_of_def chunk_def answers_all_def)
  with run count show ?thesis by simp
qed

lemma keys_image: "fst ` set xs = dom (map_of xs)"
  by (simp add: dom_map_of_conv_image_fst)

text \<open>
  What the cache file holds between batches, as the code is written. The merge and
  save sit in the success path under \<open>if i % 500 == 0\<close>, so they follow the batches
  that start at an offset divisible by 500 (the first, the sixth and so on) and whose
  \<open>execute()\<close> returned. When \<open>m\<close> batches have completed: if no such batch is among
  them, the cache file is as it was loaded; otherwise, with \<open>c\<close> the last such batch,
  it holds the loaded cache overwritten with the records delivered by the batches up to
  and including \<open>c\<close>, and nothing of a later batch.
\<close>

lemma persisted_after_batches:
  assumes "m \<le> length (fetch_trace exec stop (missing_ids_of loaded messages) 0
                         (details_start loaded messages sy))"
  shows "((\<forall>j < m. \<not> checkpoint exec (missing_ids_of loaded messages) j) \<longrightarrow>
            persisted ((details_start loaded messages sy
              # fetch_trace exec stop (missing_ids_of loaded messages) 0
                  (details_start loaded messages sy)) ! m) = loaded) \<and>
         (\<forall>c < m. checkpoint exec (missing_ids_of loaded messages) c \<and>
              (\<forall>j. c < j \<and> j < m \<longrightarrow> \<not> checkpoint exec (missing_ids_of loaded messages) j) \<longrightarrow>
            map_of (persisted ((details_start loaded messages sy
              # fetch_trace exec stop (missing_ids_of loaded messages) 0
                  (details_start loaded messages sy)) ! m))
              = map_of loaded
                  ++ map_of (rev (delivered_upto exec (missing_ids_of loaded messages) (Suc c))) \<and>
            fst ` set (persisted ((details_start loaded messages sy
              # fetch_trace exec stop (missing_ids_of loaded messages) 0
                  (details_start loaded messages sy)) ! m))
              = fst ` set loaded
                  \<union> fst ` set (delivered_upto exec (missing_ids_of loaded messages) (Suc c)))"
proof -
  let ?missing = "missing_ids_of loaded messages"
  let ?start = "details_start loaded messages sy"
  let ?state = "(?start # fetch_trace exec stop ?missing 0 ?start) ! m"
  have state: "?state = after_batches exec ?missing ?start m"
    using assms by (rule trace_state)
  have none: "persisted ?state = loaded" if "\<forall>j < m. \<not> checkpoint exec ?missing j"
    using after_no_checkpoint [of 0 m exec ?missing ?start] that
    by (simp add: state details_start_fields)
  have some: "map_of (persisted ?state)
        = map_of loaded ++ map_of (rev (delivered_upto exec ?missing (Suc c))) \<and>
      fst ` set (persisted ?state)
        = fst ` set loaded \<union> fst ` set (delivered_upto exec ?missing (Suc c))"
    if c: "c < m" and cp: "checkpoint exec ?missing c"
      and later: "\<forall>j. c < j \<and> j < m \<longrightarrow> \<not> checkpoint exec ?missing j" for c
  proof -
    from c have le: "Suc c \<le> m" by simp
    from later have "\<forall>j. Suc c \<le> j \<and> j < m \<longrightarrow> \<not> checkpoint exec ?missing j" by auto
    from after_no_checkpoint [OF le this]
    have "persisted ?state = persisted (after_batches exec ?missing ?start (Suc c))"
      by (simp add: state)
    moreover have "map_of (persisted (after_batches exec ?missing ?start (Suc c)))
        = map_of loaded ++ map_of (rev (delivered_upto exec ?missing (Suc c)))"
      using after_checkpoint [of ?start exec ?missing c] cp
      by (simp add: details_start_fields)
    ultimately have eq: "map_of (persisted ?state)
        = map_of loaded ++ map_of (rev (delivered_upto exec ?missing (Suc c)))"
      by simp
    have "dom (map_of (persisted ?state))
        = dom (map_of loaded) \<union> dom (map_of (rev (delivered_upto exec ?missing (Suc c))))"
      by (simp only: eq dom_map_add Un_commute)
    then have "fst ` set (persisted ?state)
        = fst ` set loaded \<union> fst ` set (delivered_upto exec ?missing (Suc c))"
      by (simp add: dom_map_of_conv_image_fst)
    with eq show ?thesis by simp
  qed
  from none some show ?thesis by blast
qed


lemma entries_of_answers:
  "entries_of (map (\<lambda>k. Inr (plain_message k)) ks)
     = map (\<lambda>k. (k, record_of (plain_message k))) ks"
  by (induction ks) (simp_all add: plain_message_def)

lemma map_of_tabulate:
  "map_of (map (\<lambda>k. (k, f k)) ks) x = (if x \<in> set ks then Some (f x) else None)"
  by (induction ks) auto

lemma chunk_upt:
  "100 * j + 100 \<le> n \<Longrightarrow> chunk [0 ..< n] j = [100 * j ..< 100 * j + 100]"
  by (simp add: chunk_def take_upt)

lemma delivered_answers_all:
  "100 * j + 100 \<le> n \<Longrightarrow>
   delivered answers_all [0 ..< n] j
     = map (\<lambda>k. (k, record_of (plain_message k))) [100 * j ..< 100 * j + 100]"
  by (simp add: delivered_def outcome_of_def answers_all_def entries_of_answers chunk_upt)

lemma checkpoint_answers_all: "checkpoint answers_all ms j = (j mod 5 = 0)"
  by (auto simp: checkpoint_def outcome_of_def answers_all_def)

lemma first_batch_saved:
  "map_of (rev (delivered_upto answers_all [0 ..< 501] (Suc 0))) x
     = (if x < 100 then Some (record_of (plain_message x)) else None)"
proof -
  have "delivered_upto answers_all [0 ..< 501] (Suc 0)
      = map (\<lambda>k. (k, record_of (plain_message k))) [0 ..< 100]"
    using delivered_answers_all [of 0 501] by (simp add: delivered_upto_def)
  moreover have "distinct (map fst (map (\<lambda>k. (k, record_of (plain_message k))) [0 ..< 100::nat]))"
    by (simp add: comp_def)
  ultimately show ?thesis
    by (simp add: map_of_rev_distinct map_of_tabulate del: distinct_map)
qed

lemma no_checkpoint_1_to_4: "\<forall>j. 0 < j \<and> j < 5 \<longrightarrow> \<not> checkpoint answers_all ms j"
  by (simp add: checkpoint_answers_all)

text \<open>With 501 ids and five batches done, message 7 of the first batch is saved.\<close>

lemma persisted_after_batches_example:
  "map_of (persisted ((details_start [] [0 ..< 501] (listed_progress 501)
      # fetch_trace answers_all (\<lambda>i. False) [0 ..< 501] 0
          (details_start [] [0 ..< 501] (listed_progress 501))) ! 5)) 7
     = Some (record_of (plain_message 7))"
proof -
  have len: "5 \<le> length (fetch_trace answers_all (\<lambda>i. False) (missing_ids_of [] [0 ..< 501]) 0
                         (details_start [] [0 ..< 501] (listed_progress 501)))"
    by (simp add: missing_ids_of_Nil fetch_trace_length_unstopped)
  have cp: "checkpoint answers_all (missing_ids_of [] [0 ..< 501]) 0"
    by (simp add: checkpoint_answers_all)
  have first: "(0::nat) < 5" by simp
  note saved = persisted_after_batches
    [OF len, THEN conjunct2, rule_format, of 0, OF first conjI [OF cp no_checkpoint_1_to_4],
     THEN conjunct1]
  show ?thesis
    unfolding saved [unfolded missing_ids_of_Nil]
    by (simp add: first_batch_saved)
qed


theorem run_requests_missing_witness:
  "\<exists>en. run (listed_world [1, 2, 3] (\<lambda>i. False) answers_all) [(1, example_record)] = Some en \<and>
        concat (requested en) = [2, 3]"
proof -
  let ?w = "listed_world [1, 2, 3] (\<lambda>i. False) answers_all"
  have stop: "\<not> stop_listed ?w"
    by (simp add: listed_world_fields)
  have missing: "missing_ids_of [(1, example_record)] [1, 2, 3::nat] = [2, 3]"
    by (simp add: missing_ids_of_def)
  from run_requests_missing
    [OF listed_world_fields(1) listing_listed_world stop, of "[(1, example_record)]"]
  obtain en where run: "run ?w [(1, example_record)] = Some en"
    and full: "(\<forall>i. \<not> stop_batch ?w i) \<longrightarrow>
         concat (requested en) = missing_ids_of [(1, example_record)] [1, 2, 3] \<and>
         length (concat (requested en)) =
           length [1, 2, 3::nat]
             - length (filter (\<lambda>k. k \<in> fst ` set [(1, example_record)]) [1, 2, 3::nat])"
    by blast
  from full have "concat (requested en) = [2, 3]"
    unfolding listed_world_fields missing by simp
  with run show ?thesis by blast
qed

end
